theory Spec2Isabelle
  imports Complex_Main "HOL-Library.Multiset"
begin

section \<open>The load generator of the reranker notebooks\<close>

text \<open>
  Both notebooks define the same function \<^verbatim>\<open>benchmark_predictor(predictor, payload,
  steps, iterations=5)\<close> with the nested helper \<^verbatim>\<open>send_request()\<close>. The embedding
  below follows that code line by line. Durations and their quotients are Python floats
  in the source; they are real numbers here, so rounding and overflow of float64 are not
  part of the model. Everything the function observes from outside (what each call of
  \<^verbatim>\<open>predictor.predict\<close> does and how long it takes, the order in which the futures
  complete, the wall-clock time of a batch) is supplied by an environment, one per trial.
  Every call of \<^verbatim>\<open>predictor.predict\<close> is taken to end, by returning or by raising,
  and the thread pool is taken to start a thread for every request. The \<^verbatim>\<open>print\<close> at
  the end of each level is left out.
\<close>

subsection \<open>Data\<close>

text \<open>
  What \<^verbatim>\<open>np.mean\<close> returns: a number, or \<^verbatim>\<open>nan\<close> (the mean of an empty list,
  which numpy reports with a warning and not with an exception).
\<close>

datatype npfloat = Fin real | NaN

text \<open>
  The exceptions that can leave \<^verbatim>\<open>benchmark_predictor\<close>: \<^verbatim>\<open>ValueError\<close> from
  \<^verbatim>\<open>ThreadPoolExecutor(max_workers=n)\<close> with \<open>n \<le> 0\<close>, \<^verbatim>\<open>ZeroDivisionError\<close> from
  \<^verbatim>\<open>num_requests / total_time\<close>, and whatever \<^verbatim>\<open>predictor.predict\<close> raised,
  re-raised by \<^verbatim>\<open>future.result()\<close>.
\<close>

datatype 'x error = ValueError | ZeroDivisionError | PredictError 'x

text \<open>
  One call of \<^verbatim>\<open>predictor.predict(data=payload)\<close>: the time that passes between
  the two \<^verbatim>\<open>time.time()\<close> readings around it, and the exception it raises, if any.
  The response is never read by the source.
\<close>

record 'x call =
  took :: real
  raised :: "'x option"

text \<open>
  The conditions of one trial: \<open>predict p i\<close> is the call made by the \<open>i\<close>-th submitted
  request with payload \<open>p\<close>; \<open>completion\<close> decides which of the pending futures
  finishes next; \<open>wall_clock\<close> is the difference of the two \<^verbatim>\<open>time.time()\<close>
  readings around the batch.
\<close>

record ('p, 'x) trial_env =
  predict :: "'p \<Rightarrow> nat \<Rightarrow> 'x call"
  completion :: "nat \<Rightarrow> nat"
  wall_clock :: real

text \<open>
  What the run does, in the order of the controlling thread: it reads the clock,
  \<^verbatim>\<open>executor.submit(send_request)\<close> issues a request, a request calls
  \<^verbatim>\<open>predictor.predict\<close> (with its payload and the exception raised, if any),
  \<^verbatim>\<open>future.result()\<close> is taken from a completed future, the clock is read again.
  Requests are numbered within their trial, in the order of submission.
\<close>

datatype ('p, 'x) event =
    Timer_started
  | Submitted nat
  | Invoked nat 'p "'x option"
  | Collected nat "'x + real"
  | Timer_stopped

subsection \<open>\<^verbatim>\<open>np.mean\<close>\<close>

fun np_add :: "npfloat \<Rightarrow> npfloat \<Rightarrow> npfloat" where
  "np_add (Fin a) (Fin b) = Fin (a + b)"
| "np_add _ _ = NaN"

primrec np_sum :: "npfloat list \<Rightarrow> npfloat" where
  "np_sum [] = Fin 0"
| "np_sum (x # xs) = np_add x (np_sum xs)"

fun np_div :: "npfloat \<Rightarrow> nat \<Rightarrow> npfloat" where
  "np_div (Fin a) n = (if n = 0 then NaN else Fin (a / real n))"
| "np_div NaN n = NaN"

definition np_mean :: "npfloat list \<Rightarrow> npfloat" where
  "np_mean xs = np_div (np_sum xs) (length xs)"

text \<open>The arithmetic mean, as the specification words it.\<close>

definition arithmetic_mean :: "real list \<Rightarrow> real" where
  "arithmetic_mean xs = sum_list xs / real (length xs)"

subsection \<open>One request\<close>

text \<open>
  \<^verbatim>\<open>send_request()\<close>: one call of \<^verbatim>\<open>predictor.predict(data=payload)\<close> between two
  clock readings; the latency is returned, an exception of the call passes through.
\<close>

definition send_request ::
  "('p \<Rightarrow> nat \<Rightarrow> 'x call) \<Rightarrow> 'p \<Rightarrow> nat \<Rightarrow> ('p, 'x) event \<times> ('x + real)" where
  "send_request predictor payload i =
     (let resp = predictor payload i
      in (Invoked i payload (raised resp),
          case raised resp of Some e \<Rightarrow> Inl e | None \<Rightarrow> Inr (took resp)))"

subsection \<open>One trial\<close>

text \<open>
  \<^verbatim>\<open>concurrent.futures.as_completed(futures)\<close> yields every future once, in the order
  of completion. That order is not fixed by the program: among the futures still
  pending, the environment chooses the next one.
\<close>

function as_completed :: "(nat \<Rightarrow> nat) \<Rightarrow> 'a list \<Rightarrow> 'a list" where
  "as_completed pick [] = []"
| "as_completed pick (f # fs) =
     (f # fs) ! (pick (length fs) mod Suc (length fs))
       # as_completed pick
           (take (pick (length fs) mod Suc (length fs)) (f # fs)
              @ drop (Suc (pick (length fs) mod Suc (length fs))) (f # fs))"
  by pat_completeness auto
termination
  by (relation "measure (\<lambda>(pick, fs). length fs)") auto

text \<open>
  The list comprehension \<^verbatim>\<open>[future.result() for future in as_completed(futures)]\<close>:
  the first future that holds an exception re-raises it and ends the comprehension.
\<close>

fun results :: "(nat \<times> ('x + real)) list \<Rightarrow> ('p, 'x) event list \<times> ('x + real list)" where
  "results [] = ([], Inr [])"
| "results ((i, Inl e) # fs) = ([Collected i (Inl e)], Inl e)"
| "results ((i, Inr d) # fs) =
     (case results fs of
        (evs, Inl e) \<Rightarrow> (Collected i (Inr d) # evs, Inl e)
      | (evs, Inr ds) \<Rightarrow> (Collected i (Inr d) # evs, Inr (d # ds)))"

text \<open>
  The body of the inner loop. The executor refuses \<open>max_workers \<le> 0\<close> before anything
  is submitted. All \<open>num_requests\<close> requests are submitted before the first result is
  taken, and leaving the \<^verbatim>\<open>with\<close> block waits for every worker, so each of them makes
  its call even when the comprehension has raised. The event and the result of request
  \<open>i\<close> are the two components of \<open>send_request (predict w) payload i\<close>.
\<close>

definition trial ::
  "('p, 'x) trial_env \<Rightarrow> 'p \<Rightarrow> int \<Rightarrow> ('p, 'x) event list \<times> ('x error + npfloat \<times> real)" where
  "trial w payload num_requests =
     (if num_requests \<le> 0 then ([Timer_started], Inl ValueError)
      else
        let submitted = map Submitted [0..<nat num_requests];
            invoked = map (\<lambda>i. fst (send_request (predict w) payload i)) [0..<nat num_requests];
            futures = map (\<lambda>i. (i, snd (send_request (predict w) payload i))) [0..<nat num_requests];
            (collected, batch) = results (as_completed (completion w) futures)
        in case batch of
             Inl e \<Rightarrow> (Timer_started # submitted @ invoked @ collected, Inl (PredictError e))
           | Inr latencies_batch \<Rightarrow>
               let total_time = wall_clock w;
                   latency = np_mean (map Fin latencies_batch)
               in if total_time = 0
                  then (Timer_started # submitted @ invoked @ collected @ [Timer_stopped],
                        Inl ZeroDivisionError)
                  else (Timer_started # submitted @ invoked @ collected @ [Timer_stopped],
                        Inr (latency, real_of_int num_requests / total_time)))"

subsection \<open>One concurrency level\<close>

text \<open>
  \<^verbatim>\<open>for _ in range(iterations)\<close>: the trials of one level, \<open>ws j\<close> being the
  conditions of the \<open>j\<close>-th. An exception ends the loop.
\<close>

fun trials ::
  "(nat \<Rightarrow> ('p, 'x) trial_env) \<Rightarrow> 'p \<Rightarrow> int \<Rightarrow> nat list
     \<Rightarrow> ('p, 'x) event list \<times> ('x error + npfloat list \<times> real list)" where
  "trials ws payload num_requests [] = ([], Inr ([], []))"
| "trials ws payload num_requests (j # js) =
     (case trial (ws j) payload num_requests of
        (evs, Inl err) \<Rightarrow> (evs, Inl err)
      | (evs, Inr (latency, throughput)) \<Rightarrow>
          (case trials ws payload num_requests js of
             (evs', Inl err) \<Rightarrow> (evs @ evs', Inl err)
           | (evs', Inr (iter_latencies, iter_throughputs)) \<Rightarrow>
               (evs @ evs', Inr (latency # iter_latencies, throughput # iter_throughputs))))"

definition level ::
  "(nat \<Rightarrow> ('p, 'x) trial_env) \<Rightarrow> 'p \<Rightarrow> int \<Rightarrow> int
     \<Rightarrow> ('p, 'x) event list \<times> ('x error + npfloat \<times> npfloat)" where
  "level ws payload num_requests iterations =
     (case trials ws payload num_requests [0..<nat iterations] of
        (evs, Inl err) \<Rightarrow> (evs, Inl err)
      | (evs, Inr (iter_latencies, iter_throughputs)) \<Rightarrow>
          (evs, Inr (np_mean iter_latencies, np_mean (map Fin iter_throughputs))))"

subsection \<open>The whole run\<close>

text \<open>
  \<^verbatim>\<open>for num_requests in steps\<close>: \<open>env k j\<close> holds the conditions of trial \<open>j\<close> of
  the \<open>k\<close>-th level. The three lists grow by one entry per completed level.
\<close>

fun levels ::
  "(nat \<Rightarrow> nat \<Rightarrow> ('p, 'x) trial_env) \<Rightarrow> 'p \<Rightarrow> int \<Rightarrow> nat \<Rightarrow> int list
     \<Rightarrow> ('p, 'x) event list \<times> ('x error + int list \<times> npfloat list \<times> npfloat list)" where
  "levels env payload iterations k [] = ([], Inr ([], [], []))"
| "levels env payload iterations k (num_requests # rest) =
     (case level (env k) payload num_requests iterations of
        (evs, Inl err) \<Rightarrow> (evs, Inl err)
      | (evs, Inr (avg_latency, avg_throughput)) \<Rightarrow>
          (case levels env payload iterations (Suc k) rest of
             (evs', Inl err) \<Rightarrow> (evs @ evs', Inl err)
           | (evs', Inr (request_counts, latencies, throughputs)) \<Rightarrow>
               (evs @ evs',
                Inr (num_requests # request_counts, avg_latency # latencies,
                     avg_throughput # throughputs))))"

definition benchmark_predictor ::
  "(nat \<Rightarrow> nat \<Rightarrow> ('p, 'x) trial_env) \<Rightarrow> 'p \<Rightarrow> int list \<Rightarrow> int
     \<Rightarrow> ('p, 'x) event list \<times> ('x error + int list \<times> npfloat list \<times> npfloat list)" where
  "benchmark_predictor env payload steps iterations = levels env payload iterations 0 steps"

subsection \<open>Reading a trace\<close>

text \<open>
  The payloads of the calls of \<^verbatim>\<open>predictor.predict\<close> in a trace, the requests that
  made them, the requests that were submitted, the exceptions those calls raised, and the
  exceptions that \<^verbatim>\<open>future.result()\<close> re-raised, each in the order of the trace.
\<close>

fun invocation :: "('p, 'x) event \<Rightarrow> 'p list" where
  "invocation (Invoked i p r) = [p]"
| "invocation _ = []"

definition invocations :: "('p, 'x) event list \<Rightarrow> 'p list" where
  "invocations tr = concat (map invocation tr)"

fun invoked_request :: "('p, 'x) event \<Rightarrow> nat list" where
  "invoked_request (Invoked i p r) = [i]"
| "invoked_request _ = []"

definition invoked_requests :: "('p, 'x) event list \<Rightarrow> nat list" where
  "invoked_requests tr = concat (map invoked_request tr)"

fun submitted_request :: "('p, 'x) event \<Rightarrow> nat list" where
  "submitted_request (Submitted i) = [i]"
| "submitted_request _ = []"

definition submitted_requests :: "('p, 'x) event list \<Rightarrow> nat list" where
  "submitted_requests tr = concat (map submitted_request tr)"

fun failure :: "('p, 'x) event \<Rightarrow> 'x list" where
  "failure (Invoked i p (Some e)) = [e]"
| "failure _ = []"

definition failures :: "('p, 'x) event list \<Rightarrow> 'x list" where
  "failures tr = concat (map failure tr)"

fun reraised :: "('p, 'x) event \<Rightarrow> 'x list" where
  "reraised (Collected i (Inl e)) = [e]"
| "reraised _ = []"

definition reraisings :: "('p, 'x) event list \<Rightarrow> 'x list" where
  "reraisings tr = concat (map reraised tr)"

fun collected_result :: "('p, 'x) event \<Rightarrow> (nat \<times> ('x + real)) list" where
  "collected_result (Collected i r) = [(i, r)]"
| "collected_result _ = []"

definition collected :: "('p, 'x) event list \<Rightarrow> (nat \<times> ('x + real)) list" where
  "collected tr = concat (map collected_result tr)"

text \<open>
  The exception that left a computation, if any; and what a trace looks like when the run
  stops at the first exception re-raised by \<^verbatim>\<open>future.result()\<close>: that exception was
  raised by a call in the trace and its re-raising is the last event, no future having
  re-raised before; with any other outcome no call in the trace has raised.
\<close>

definition exception_of :: "'e + 'a \<Rightarrow> 'e option" where
  "exception_of res = (case res of Inl err \<Rightarrow> Some err | Inr _ \<Rightarrow> None)"

definition stops_at_first_failure :: "('p, 'x) event list \<Rightarrow> 'x error option \<Rightarrow> bool" where
  "stops_at_first_failure tr err =
     (case err of
        Some (PredictError e) \<Rightarrow>
          e \<in> set (failures tr) \<and> (\<exists>pre i. tr = pre @ [Collected i (Inl e)] \<and> reraisings pre = [])
      | _ \<Rightarrow> failures tr = [] \<and> reraisings tr = [])"

subsection \<open>Stub endpoints\<close>

text \<open>
  Two completion orders: the futures finish in the order of submission, or the one
  submitted last finishes first.
\<close>

definition in_submission_order :: "nat \<Rightarrow> nat" where
  "in_submission_order n = 0"

definition latest_first :: "nat \<Rightarrow> nat" where
  "latest_first n = n"

text \<open>
  An endpoint whose every call returns after the fixed duration \<open>d\<close>, with batches that
  take \<open>d\<close> as well; and an endpoint that answers in one second, except that the second
  and the third request of every trial raise.
\<close>

definition stub_endpoint :: "real \<Rightarrow> nat \<Rightarrow> nat \<Rightarrow> (string, string) trial_env" where
  "stub_endpoint d k j =
     \<lparr>predict = (\<lambda>p i. \<lparr>took = d, raised = None\<rparr>),
      completion = in_submission_order, wall_clock = d\<rparr>"

definition failing_endpoint :: "nat \<Rightarrow> nat \<Rightarrow> (string, string) trial_env" where
  "failing_endpoint k j =
     \<lparr>predict = (\<lambda>p i. \<lparr>took = 1,
                          raised = (if i = 1 then Some ''timed out''
                                    else if i = 2 then Some ''throttled'' else None)\<rparr>),
      completion = latest_first, wall_clock = 1\<rparr>"


section \<open>Auxiliary facts\<close>

subsection \<open>Completion order and collection\<close>

lemma mset_as_completed: "mset (as_completed pick fs) = mset fs"
proof (induction pick fs rule: as_completed.induct)
  case (1 pick)
  show ?case by simp
next
  case (2 pick f fs)
  let ?xs = "f # fs"
  let ?k = "pick (length fs) mod Suc (length fs)"
  have k: "?k < length ?xs" by simp
  have "mset ?xs = mset (take ?k ?xs @ ?xs ! ?k # drop (Suc ?k) ?xs)"
    using arg_cong [OF id_take_nth_drop [OF k], of mset] .
  also have "\<dots> = add_mset (?xs ! ?k) (mset (take ?k ?xs @ drop (Suc ?k) ?xs))"
    by (simp only: mset_append mset.simps union_mset_add_mset_right)
  finally have "mset ?xs = add_mset (?xs ! ?k) (mset (take ?k ?xs @ drop (Suc ?k) ?xs))" .
  moreover have "mset (as_completed pick ?xs) =
      add_mset (?xs ! ?k) (mset (as_completed pick (take ?k ?xs @ drop (Suc ?k) ?xs)))"
    by simp
  ultimately show ?case using 2 by (simp only:)
qed

lemma as_completed_map: "as_completed pick (map g xs) = map g (as_completed pick xs)"
proof (induction pick xs rule: as_completed.induct)
  case (1 pick)
  show ?case by simp
next
  case (2 pick f fs)
  let ?k = "pick (length fs) mod Suc (length fs)"
  have k: "?k < length (f # fs)" by simp
  have "as_completed pick (map g (f # fs)) =
          map g (f # fs) ! ?k # as_completed pick (take ?k (map g (f # fs)) @ drop (Suc ?k) (map g (f # fs)))"
    by simp
  also have "take ?k (map g (f # fs)) @ drop (Suc ?k) (map g (f # fs)) = map g (take ?k (f # fs) @ drop (Suc ?k) (f # fs))"
    by (simp only: take_map drop_map map_append)
  also have "map g (f # fs) ! ?k = g ((f # fs) ! ?k)"
    using k by (rule nth_map)
  finally show ?case using 2 by simp
qed

lemma results_all_returned:
  "\<forall>i\<in>set js. r i = Inr (d i) \<Longrightarrow>
   results (map (\<lambda>i. (i, r i)) js) = (map (\<lambda>i. Collected i (Inr (d i))) js, Inr (map d js))"
  by (induction js) simp_all

lemma results_first_raised:
  "\<forall>j\<in>set pre. r j = Inr (d j) \<Longrightarrow> r i = Inl e \<Longrightarrow>
   results (map (\<lambda>i. (i, r i)) (pre @ i # post)) =
     (map (\<lambda>j. Collected j (Inr (d j))) pre @ [Collected i (Inl e)], Inl e)"
  by (induction pre) simp_all


lemma set_as_completed: "set (as_completed pick fs) = set fs"
  using mset_as_completed [of pick fs] by (metis set_mset_mset)

lemma length_as_completed: "length (as_completed pick fs) = length fs"
  using mset_as_completed [of pick fs] by (metis size_mset)

lemma send_request_returned:
  "raised (predictor payload i) = None \<Longrightarrow>
   send_request predictor payload i = (Invoked i payload None, Inr (took (predictor payload i)))"
  by (simp add: send_request_def Let_def)

lemma send_request_raised:
  "raised (predictor payload i) = Some e \<Longrightarrow>
   send_request predictor payload i = (Invoked i payload (Some e), Inl e)"
  by (simp add: send_request_def Let_def)

lemma fst_send_request:
  "fst (send_request predictor payload i) = Invoked i payload (raised (predictor payload i))"
  by (simp add: send_request_def Let_def)

lemma trial_nonpositive:
  "num_requests \<le> 0 \<Longrightarrow> trial w payload num_requests = ([Timer_started], Inl ValueError)"
  by (simp add: trial_def)

lemma trial_all_returned:
  assumes pos: "0 < num_requests"
    and ok: "\<forall>i<nat num_requests. raised (predict w payload i) = None"
  shows "trial w payload num_requests =
    (Timer_started # map Submitted [0..<nat num_requests]
       @ map (\<lambda>i. Invoked i payload None) [0..<nat num_requests]
       @ map (\<lambda>i. Collected i (Inr (took (predict w payload i))))
           (as_completed (completion w) [0..<nat num_requests])
       @ [Timer_stopped],
     if wall_clock w = 0 then Inl ZeroDivisionError
     else Inr (np_mean (map (\<lambda>i. Fin (took (predict w payload i)))
                 (as_completed (completion w) [0..<nat num_requests])),
               real_of_int num_requests / wall_clock w))"
proof -
  let ?n = "nat num_requests"
  let ?order = "as_completed (completion w) [0..<?n]"
  let ?r = "\<lambda>i. snd (send_request (predict w) payload i)"
  have sub: "map (\<lambda>i. fst (send_request (predict w) payload i)) [0..<?n]
               = map (\<lambda>i. Invoked i payload None) [0..<?n]"
    using ok by (simp add: fst_send_request)
  have "\<forall>i\<in>set ?order. ?r i = Inr (took (predict w payload i))"
    using ok by (simp add: set_as_completed send_request_returned)
  then have res: "results (map (\<lambda>i. (i, ?r i)) ?order) =
      (map (\<lambda>i. Collected i (Inr (took (predict w payload i)))) ?order,
       Inr (map (\<lambda>i. took (predict w payload i)) ?order))"
    by (rule results_all_returned)
  show ?thesis
    using pos
    by (simp add: trial_def Let_def as_completed_map res sub comp_def)
qed

lemma trial_first_raised:
  assumes pos: "0 < num_requests"
    and split: "as_completed (completion w) [0..<nat num_requests] = pre @ i # post"
    and ok: "\<forall>j\<in>set pre. raised (predict w payload j) = None"
    and bad: "raised (predict w payload i) = Some e"
  shows "trial w payload num_requests =
    (Timer_started # map Submitted [0..<nat num_requests]
       @ map (\<lambda>i. Invoked i payload (raised (predict w payload i))) [0..<nat num_requests]
       @ map (\<lambda>j. Collected j (Inr (took (predict w payload j)))) pre
       @ [Collected i (Inl e)],
     Inl (PredictError e))"
proof -
  let ?n = "nat num_requests"
  let ?r = "\<lambda>i. snd (send_request (predict w) payload i)"
  have "\<forall>j\<in>set pre. ?r j = Inr (took (predict w payload j))"
    using ok by (simp add: send_request_returned)
  moreover have "?r i = Inl e"
    using bad by (simp add: send_request_raised)
  ultimately have res: "results (map (\<lambda>i. (i, ?r i)) (pre @ i # post)) =
      (map (\<lambda>j. Collected j (Inr (took (predict w payload j)))) pre @ [Collected i (Inl e)], Inl e)"
    by (rule results_first_raised)
  show ?thesis
    using pos
    by (simp add: trial_def Let_def as_completed_map split res fst_send_request del: map_append)
qed

lemma trial_some_raised:
  assumes pos: "0 < num_requests"
    and bad: "\<exists>i<nat num_requests. raised (predict w payload i) \<noteq> None"
  shows "\<exists>pre i post e.
      as_completed (completion w) [0..<nat num_requests] = pre @ i # post
    \<and> (\<forall>j\<in>set pre. raised (predict w payload j) = None)
    \<and> raised (predict w payload i) = Some e"
proof -
  let ?order = "as_completed (completion w) [0..<nat num_requests]"
  from bad have "\<exists>i\<in>set ?order. raised (predict w payload i) \<noteq> None"
    by (auto simp: set_as_completed)
  then obtain pre i post where "?order = pre @ i # post"
    "raised (predict w payload i) \<noteq> None" "\<forall>j\<in>set pre. \<not> raised (predict w payload j) \<noteq> None"
    using split_list_first_prop [of ?order "\<lambda>i. raised (predict w payload i) \<noteq> None"] by blast
  then show ?thesis by auto
qed

text \<open>
  The environment can produce every order of completion: any permutation of the futures
  is what \<open>as_completed\<close> yields under some choice function.
\<close>

lemma length_without_nth:
  "k < length xs \<Longrightarrow> length (take k xs @ drop (Suc k) xs) = length xs - 1"
  by (auto simp: min_def)

lemma as_completed_cong:
  "(\<And>m. m < length xs \<Longrightarrow> p m = q m) \<Longrightarrow> as_completed p xs = as_completed q xs"
proof (induction "length xs" arbitrary: xs)
  case 0
  then show ?case by simp
next
  case (Suc n)
  then obtain f fs where xs: "xs = f # fs" and n: "length fs = n"
    by (cases xs) auto
  have pq: "p (length fs) = q (length fs)"
    using Suc.prems [of "length fs"] xs by simp
  let ?k = "q (length fs) mod Suc (length fs)"
  let ?rest = "take ?k (f # fs) @ drop (Suc ?k) (f # fs)"
  have k: "?k < Suc (length fs)" by simp
  have len: "length ?rest = n"
    using length_without_nth [of ?k "f # fs"] n by simp
  have "as_completed p ?rest = as_completed q ?rest"
  proof (rule Suc.hyps(1))
    show "n = length ?rest" using len by simp
    show "p m = q m" if "m < length ?rest" for m
      using that len n xs Suc.prems [of m] by simp
  qed
  then show ?case
    unfolding xs by (simp add: pq del: take_Suc_Cons drop_Suc_Cons nth_Cons_Suc)
qed

lemma every_order_is_a_completion_order:
  "mset ys = mset fs \<Longrightarrow> \<exists>pick. as_completed pick fs = ys"
proof (induction ys arbitrary: fs)
  case Nil
  then show ?case by simp
next
  case (Cons y ys)
  from Cons.prems have "y \<in> set fs"
    by (metis list.set_intros(1) set_mset_mset)
  then obtain k where k: "k < length fs" and y: "fs ! k = y"
    by (auto simp: in_set_conv_nth)
  then obtain f fs0 where fs: "fs = f # fs0" by (cases fs) auto
  let ?rest = "take k fs @ drop (Suc k) fs"
  have "mset fs = add_mset y (mset ?rest)"
    using arg_cong [OF id_take_nth_drop [OF k], of mset] y
    by (simp only: mset_append mset.simps union_mset_add_mset_right)
  with Cons.prems have "mset ys = mset ?rest" by simp
  from Cons.IH [OF this] obtain pick0 where p0: "as_completed pick0 ?rest = ys" by blast
  let ?pick = "pick0(length fs0 := k)"
  have len: "length ?rest = length fs0"
    using length_without_nth [OF k] fs by simp
  have "as_completed ?pick ?rest = as_completed pick0 ?rest"
  proof (rule as_completed_cong)
    fix m assume "m < length ?rest"
    then have "m \<noteq> length fs0" using len by simp
    then show "?pick m = pick0 m" by simp
  qed
  moreover have "?pick (length fs0) mod Suc (length fs0) = k"
    using k fs by simp
  ultimately have "as_completed ?pick fs = y # ys"
    using p0 y unfolding fs by (simp del: take_Suc_Cons drop_Suc_Cons nth_Cons_Suc fun_upd_apply)
  then show ?case by blast
qed

subsection \<open>The outcomes of a trial and its trace\<close>

lemma trial_cases [case_names nonpositive returned raised]:
  obtains
    (nonpositive) "num_requests \<le> 0"
      "trial w payload num_requests = ([Timer_started], Inl ValueError)"
  | (returned) "0 < num_requests"
      "\<forall>i<nat num_requests. raised (predict w payload i) = None"
      "trial w payload num_requests =
         (Timer_started # map Submitted [0..<nat num_requests]
            @ map (\<lambda>i. Invoked i payload None) [0..<nat num_requests]
            @ map (\<lambda>i. Collected i (Inr (took (predict w payload i))))
                (as_completed (completion w) [0..<nat num_requests])
            @ [Timer_stopped],
          if wall_clock w = 0 then Inl ZeroDivisionError
          else Inr (np_mean (map (\<lambda>i. Fin (took (predict w payload i)))
                      (as_completed (completion w) [0..<nat num_requests])),
                    real_of_int num_requests / wall_clock w))"
  | (raised) pre i post e where "0 < num_requests"
      "as_completed (completion w) [0..<nat num_requests] = pre @ i # post"
      "\<forall>j\<in>set pre. raised (predict w payload j) = None"
      "raised (predict w payload i) = Some e"
      "trial w payload num_requests =
         (Timer_started # map Submitted [0..<nat num_requests]
            @ map (\<lambda>i. Invoked i payload (raised (predict w payload i))) [0..<nat num_requests]
            @ map (\<lambda>j. Collected j (Inr (took (predict w payload j)))) pre
            @ [Collected i (Inl e)],
          Inl (PredictError e))"
proof (cases "num_requests \<le> 0")
  case True
  show ?thesis by (rule nonpositive [OF True trial_nonpositive [OF True]])
next
  case False
  then have pos: "0 < num_requests" by simp
  show ?thesis
  proof (cases "\<forall>i<nat num_requests. raised (predict w payload i) = None")
    case True
    show ?thesis by (rule returned [OF pos True trial_all_returned [OF pos True]])
  next
    case False
    then have "\<exists>i<nat num_requests. raised (predict w payload i) \<noteq> None" by blast
    from trial_some_raised [OF pos this] obtain pre i post e where
      *: "as_completed (completion w) [0..<nat num_requests] = pre @ i # post"
         "\<forall>j\<in>set pre. raised (predict w payload j) = None"
         "raised (predict w payload i) = Some e" by blast
    show ?thesis by (rule raised [OF pos * trial_first_raised [OF pos *]])
  qed
qed

lemma invocations_append: "invocations (a @ b) = invocations a @ invocations b"
  by (simp add: invocations_def)



lemma failures_append: "failures (a @ b) = failures a @ failures b"
  by (simp add: failures_def)

lemma reraisings_append: "reraisings (a @ b) = reraisings a @ reraisings b"
  by (simp add: reraisings_def)

lemma invocations_simps:
  "invocations [] = []"
  "invocations (Timer_started # tr) = invocations tr"
  "invocations (Timer_stopped # tr) = invocations tr"
  "invocations (Submitted i # tr) = invocations tr"
  "invocations (Collected i r # tr) = invocations tr"
  "invocations (Invoked i p x # tr) = p # invocations tr"
  by (simp_all add: invocations_def)

lemma invoked_requests_simps:
  "invoked_requests [] = []"
  "invoked_requests (Timer_started # tr) = invoked_requests tr"
  "invoked_requests (Timer_stopped # tr) = invoked_requests tr"
  "invoked_requests (Submitted i # tr) = invoked_requests tr"
  "invoked_requests (Collected i r # tr) = invoked_requests tr"
  "invoked_requests (Invoked i p x # tr) = i # invoked_requests tr"
  by (simp_all add: invoked_requests_def)

lemma submitted_requests_simps:
  "submitted_requests [] = []"
  "submitted_requests (Timer_started # tr) = submitted_requests tr"
  "submitted_requests (Timer_stopped # tr) = submitted_requests tr"
  "submitted_requests (Submitted i # tr) = i # submitted_requests tr"
  "submitted_requests (Collected i r # tr) = submitted_requests tr"
  "submitted_requests (Invoked i p x # tr) = submitted_requests tr"
  by (simp_all add: submitted_requests_def)

lemma failures_simps:
  "failures [] = []"
  "failures (Timer_started # tr) = failures tr"
  "failures (Timer_stopped # tr) = failures tr"
  "failures (Submitted i # tr) = failures tr"
  "failures (Collected i r # tr) = failures tr"
  "failures (Invoked i p None # tr) = failures tr"
  "failures (Invoked i p (Some e) # tr) = e # failures tr"
  by (simp_all add: failures_def)

lemma reraisings_simps:
  "reraisings [] = []"
  "reraisings (Timer_started # tr) = reraisings tr"
  "reraisings (Timer_stopped # tr) = reraisings tr"
  "reraisings (Submitted i # tr) = reraisings tr"
  "reraisings (Collected i (Inr d) # tr) = reraisings tr"
  "reraisings (Collected i (Inl e) # tr) = e # reraisings tr"
  "reraisings (Invoked i p x # tr) = reraisings tr"
  by (simp_all add: reraisings_def)

lemma invocations_map [simp]:
  "invocations (map Submitted js) = []"
  "invocations (map (\<lambda>i. Collected i (r i)) js) = []"
  "invocations (map (\<lambda>i. Invoked i p (x i)) js) = replicate (length js) p"
  by (induction js) (simp_all add: invocations_simps)

lemma invoked_requests_map [simp]:
  "invoked_requests (map Submitted js) = []"
  "invoked_requests (map (\<lambda>i. Collected i (r i)) js) = []"
  "invoked_requests (map (\<lambda>i. Invoked i p (x i)) js) = js"
  by (induction js) (simp_all add: invoked_requests_simps)

lemma submitted_requests_map [simp]:
  "submitted_requests (map Submitted js) = js"
  "submitted_requests (map (\<lambda>i. Collected i (r i)) js) = []"
  "submitted_requests (map (\<lambda>i. Invoked i p (x i)) js) = []"
  by (induction js) (simp_all add: submitted_requests_simps)

lemma failures_map [simp]:
  "failures (map Submitted js) = []"
  "failures (map (\<lambda>i. Collected i (r i)) js) = []"
  "failures (map (\<lambda>i. Invoked i p None) js) = []"
  by (induction js) (simp_all add: failures_simps)

lemma reraisings_map [simp]:
  "reraisings (map Submitted js) = []"
  "reraisings (map (\<lambda>i. Collected i (Inr (d i))) js) = []"
  "reraisings (map (\<lambda>i. Invoked i p (x i)) js) = []"
  by (induction js) (simp_all add: reraisings_simps)

lemma failures_Invoked_map:
  "set (failures (map (\<lambda>i. Invoked i p (x i)) js)) = {e. \<exists>i\<in>set js. x i = Some e}"
proof (induction js)
  case Nil
  show ?case by (simp add: failures_simps)
next
  case (Cons j js)
  then show ?case by (cases "x j") (auto simp: failures_simps)
qed

lemma invocations_trial:
  "invocations (fst (trial w payload num_requests)) = replicate (nat num_requests) payload"
  by (cases w payload num_requests rule: trial_cases)
     (simp_all add: invocations_simps invocations_append)



subsection \<open>Means, and how a trial ends\<close>

lemma np_sum_Fin: "np_sum (map Fin xs) = Fin (sum_list xs)"
  by (induction xs) simp_all

lemma np_mean_Fin:
  "np_mean (map Fin xs) = (if xs = [] then NaN else Fin (arithmetic_mean xs))"
  by (simp add: np_mean_def np_sum_Fin arithmetic_mean_def)

lemma np_mean_Nil: "np_mean [] = NaN"
  by (simp add: np_mean_def)

lemma sum_list_as_completed:
  fixes f :: "'a \<Rightarrow> real"
  shows "sum_list (map f (as_completed pick xs)) = sum_list (map f xs)"
proof -
  have "mset (map f (as_completed pick xs)) = mset (map f xs)"
    by (simp add: mset_as_completed)
  then have "sum_mset (mset (map f (as_completed pick xs))) = sum_mset (mset (map f xs))"
    by (simp only:)
  then show ?thesis by (simp only: sum_mset_sum_list)
qed

lemma arithmetic_mean_as_completed:
  "arithmetic_mean (map f (as_completed pick xs)) = arithmetic_mean (map f xs)"
  by (simp add: arithmetic_mean_def sum_list_as_completed length_as_completed)


lemma trial_Inr:
  assumes "snd (trial w payload num_requests) = Inr (latency, throughput)"
  shows "0 < num_requests"
    and "\<forall>i<nat num_requests. raised (predict w payload i) = None"
    and "wall_clock w \<noteq> 0"
    and "latency = Fin (arithmetic_mean (map (\<lambda>i. took (predict w payload i)) [0..<nat num_requests]))"
    and "throughput = real_of_int num_requests / wall_clock w"
    and "fst (trial w payload num_requests) =
           Timer_started # map Submitted [0..<nat num_requests]
            @ map (\<lambda>i. Invoked i payload None) [0..<nat num_requests]
            @ map (\<lambda>i. Collected i (Inr (took (predict w payload i))))
                (as_completed (completion w) [0..<nat num_requests])
            @ [Timer_stopped]"
proof -
  have "0 < num_requests \<and> (\<forall>i<nat num_requests. raised (predict w payload i) = None)
      \<and> wall_clock w \<noteq> 0
      \<and> latency = Fin (arithmetic_mean (map (\<lambda>i. took (predict w payload i)) [0..<nat num_requests]))
      \<and> throughput = real_of_int num_requests / wall_clock w
      \<and> fst (trial w payload num_requests) =
           Timer_started # map Submitted [0..<nat num_requests]
            @ map (\<lambda>i. Invoked i payload None) [0..<nat num_requests]
            @ map (\<lambda>i. Collected i (Inr (took (predict w payload i))))
                (as_completed (completion w) [0..<nat num_requests])
            @ [Timer_stopped]"
  proof (cases w payload num_requests rule: trial_cases)
    case nonpositive
    with assms show ?thesis by simp
  next
    case returned
    have ne: "as_completed (completion w) [0..<nat num_requests] \<noteq> []"
      using returned(1) length_as_completed [of "completion w" "[0..<nat num_requests]"]
      by (metis length_0_conv length_upt diff_zero zero_less_nat_eq less_numeral_extra(3))
    have m: "np_mean (map (\<lambda>i. Fin (took (predict w payload i)))
                 (as_completed (completion w) [0..<nat num_requests]))
          = Fin (arithmetic_mean (map (\<lambda>i. took (predict w payload i)) [0..<nat num_requests]))"
      using np_mean_Fin [of "map (\<lambda>i. took (predict w payload i)) (as_completed (completion w) [0..<nat num_requests])"] ne
      by (simp add: comp_def arithmetic_mean_as_completed)
    from assms returned m show ?thesis by (simp split: if_splits)
  next
    case (raised pre i post e)
    with assms show ?thesis by simp
  qed
  then show "0 < num_requests"
    and "\<forall>i<nat num_requests. raised (predict w payload i) = None"
    and "wall_clock w \<noteq> 0"
    and "latency = Fin (arithmetic_mean (map (\<lambda>i. took (predict w payload i)) [0..<nat num_requests]))"
    and "throughput = real_of_int num_requests / wall_clock w"
    and "fst (trial w payload num_requests) =
           Timer_started # map Submitted [0..<nat num_requests]
            @ map (\<lambda>i. Invoked i payload None) [0..<nat num_requests]
            @ map (\<lambda>i. Collected i (Inr (took (predict w payload i))))
                (as_completed (completion w) [0..<nat num_requests])
            @ [Timer_stopped]"
    by blast+
qed

lemma stops_at_first_failure_append:
  assumes "stops_at_first_failure tr1 None" and "stops_at_first_failure tr2 err"
  shows "stops_at_first_failure (tr1 @ tr2) err"
proof (cases err)
  case None
  with assms show ?thesis
    by (simp add: stops_at_first_failure_def failures_append reraisings_append)
next
  case (Some x)
  show ?thesis
  proof (cases x)
    case (PredictError e)
    with Some assms obtain pre i where tr2: "tr2 = pre @ [Collected i (Inl e)]"
      and pre: "reraisings pre = []" and e: "e \<in> set (failures tr2)"
      by (auto simp: stops_at_first_failure_def)
    have "tr1 @ tr2 = (tr1 @ pre) @ [Collected i (Inl e)]" using tr2 by simp
    moreover have "reraisings (tr1 @ pre) = []"
      using assms(1) pre by (simp add: stops_at_first_failure_def reraisings_append)
    ultimately show ?thesis using Some PredictError e
      unfolding stops_at_first_failure_def by (auto simp: failures_append)
  next
    case ValueError
    with Some assms show ?thesis
      by (simp add: stops_at_first_failure_def failures_append reraisings_append)
  next
    case ZeroDivisionError
    with Some assms show ?thesis
      by (simp add: stops_at_first_failure_def failures_append reraisings_append)
  qed
qed

lemma stops_at_first_failure_trial:
  "stops_at_first_failure (fst (trial w payload num_requests))
     (exception_of (snd (trial w payload num_requests)))"
proof (cases w payload num_requests rule: trial_cases)
  case nonpositive
  then show ?thesis
    by (simp add: stops_at_first_failure_def exception_of_def failures_simps reraisings_simps)
next
  case returned
  then show ?thesis
    by (simp add: stops_at_first_failure_def exception_of_def failures_simps reraisings_simps
        failures_append reraisings_append)
next
  case (raised pre i post e)
  have "i \<in> set (as_completed (completion w) [0..<nat num_requests])"
    using raised(2) by simp
  then have i: "i \<in> set [0..<nat num_requests]" by (simp only: set_as_completed)
  have e: "e \<in> set (failures (map (\<lambda>i. Invoked i payload (raised (predict w payload i))) [0..<nat num_requests]))"
    unfolding failures_Invoked_map using i raised(4) by blast
  let ?pre = "Timer_started # map Submitted [0..<nat num_requests]
            @ map (\<lambda>i. Invoked i payload (raised (predict w payload i))) [0..<nat num_requests]
            @ map (\<lambda>j. Collected j (Inr (took (predict w payload j)))) pre"
  have tr: "fst (trial w payload num_requests) = ?pre @ [Collected i (Inl e)]"
    using raised(5) by simp
  have "reraisings ?pre = []"
    by (simp add: reraisings_simps reraisings_append)
  moreover have "e \<in> set (failures (?pre @ [Collected i (Inl e)]))"
    using e by (simp add: failures_simps failures_append)
  ultimately show ?thesis
    unfolding stops_at_first_failure_def exception_of_def tr
    using raised(5) by (simp del: append_Cons append_assoc)
qed

subsection \<open>The trials of one level\<close>

lemma trials_Inr:
  "trials ws payload num_requests js = (evs, Inr (iter_latencies, iter_throughputs)) \<Longrightarrow>
     evs = concat (map (\<lambda>j. fst (trial (ws j) payload num_requests)) js)
   \<and> map (\<lambda>j. snd (trial (ws j) payload num_requests)) js
       = map Inr (zip iter_latencies iter_throughputs)
   \<and> length iter_latencies = length js \<and> length iter_throughputs = length js"
proof (induction js arbitrary: evs iter_latencies iter_throughputs)
  case Nil
  then show ?case by simp
next
  case (Cons j js)
  obtain e1 r1 where t: "trial (ws j) payload num_requests = (e1, r1)" by (cases "trial (ws j) payload num_requests")
  obtain e2 r2 where ts: "trials ws payload num_requests js = (e2, r2)" by (cases "trials ws payload num_requests js")
  from Cons.prems t ts obtain l th ls ths where
    r1: "r1 = Inr (l, th)" and r2: "r2 = Inr (ls, ths)"
    and eq: "evs = e1 @ e2" "iter_latencies = l # ls" "iter_throughputs = th # ths"
    by (auto split: sum.splits prod.splits)
  from Cons.IH [OF ts [unfolded r2]] t r1 eq show ?case by simp
qed

lemma trials_Inr_values:
  assumes "trials ws payload num_requests js = (evs, Inr (iter_latencies, iter_throughputs))"
  shows "iter_latencies =
           map (\<lambda>j. Fin (arithmetic_mean
                  (map (\<lambda>i. took (predict (ws j) payload i)) [0..<nat num_requests]))) js"
    and "iter_throughputs = map (\<lambda>j. real_of_int num_requests / wall_clock (ws j)) js"
    and "js \<noteq> [] \<Longrightarrow> 0 < num_requests"
proof -
  note s = trials_Inr [OF assms]
  have each: "snd (trial (ws (js ! n)) payload num_requests) = Inr (iter_latencies ! n, iter_throughputs ! n)"
    if "n < length js" for n
  proof -
    have "snd (trial (ws (js ! n)) payload num_requests)
            = map (\<lambda>j. snd (trial (ws j) payload num_requests)) js ! n"
      using that by simp
    also have "\<dots> = map Inr (zip iter_latencies iter_throughputs) ! n"
      using s by simp
    also have "\<dots> = Inr (iter_latencies ! n, iter_throughputs ! n)"
      using that s by simp
    finally show ?thesis .
  qed
  show "iter_latencies =
           map (\<lambda>j. Fin (arithmetic_mean
                  (map (\<lambda>i. took (predict (ws j) payload i)) [0..<nat num_requests]))) js"
    using s trial_Inr(4) [OF each] by (auto intro!: nth_equalityI)
  show "iter_throughputs = map (\<lambda>j. real_of_int num_requests / wall_clock (ws j)) js"
    using s trial_Inr(5) [OF each] by (auto intro!: nth_equalityI)
  show "0 < num_requests" if "js \<noteq> []"
    using trial_Inr(1) [OF each [of 0]] that by simp
qed

lemma trials_trace:
  "trials ws payload num_requests js = (evs, Inr r) \<Longrightarrow>
     invocations evs = replicate (nat num_requests * length js) payload"
proof -
  assume a: "trials ws payload num_requests js = (evs, Inr r)"
  obtain ls ts where r: "r = (ls, ts)" by (cases r)
  have evs: "evs = concat (map (\<lambda>j. fst (trial (ws j) payload num_requests)) js)"
    using trials_Inr [OF a [unfolded r]] by simp
  have "invocations (concat (map (\<lambda>j. fst (trial (ws j) payload num_requests)) js))
          = replicate (nat num_requests * length js) payload"
    by (induction js) (simp_all add: invocations_simps invocations_append invocations_trial replicate_add)
  with evs show ?thesis by simp
qed


lemma stops_at_first_failure_trials:
  "stops_at_first_failure (fst (trials ws payload num_requests js))
     (exception_of (snd (trials ws payload num_requests js)))"
proof (induction js)
  case Nil
  show ?case
    by (simp add: stops_at_first_failure_def exception_of_def failures_simps reraisings_simps)
next
  case (Cons j js)
  obtain e1 r1 where t: "trial (ws j) payload num_requests = (e1, r1)" by (cases "trial (ws j) payload num_requests")
  obtain e2 r2 where ts: "trials ws payload num_requests js = (e2, r2)" by (cases "trials ws payload num_requests js")
  have h1: "stops_at_first_failure e1 (exception_of r1)"
    using stops_at_first_failure_trial [of "ws j" payload num_requests] t by simp
  have h2: "stops_at_first_failure e2 (exception_of r2)"
    using Cons ts by simp
  show ?case
  proof (cases r1)
    case (Inl err)
    with t h1 show ?thesis by (simp add: exception_of_def)
  next
    case (Inr v)
    then have "stops_at_first_failure e1 None" using h1 by (simp add: exception_of_def)
    from stops_at_first_failure_append [OF this h2]
    show ?thesis using t ts Inr
      by (cases r2) (auto simp: exception_of_def split: prod.splits)
  qed
qed

subsection \<open>One level, and the levels in sequence\<close>

lemma level_Inr:
  assumes "level ws payload num_requests iterations = (evs, Inr (avg_latency, avg_throughput))"
  obtains iter_latencies iter_throughputs where
    "trials ws payload num_requests [0..<nat iterations] = (evs, Inr (iter_latencies, iter_throughputs))"
    "avg_latency = np_mean iter_latencies"
    "avg_throughput = np_mean (map Fin iter_throughputs)"
  using assms by (auto simp: level_def split: prod.splits sum.splits)

lemma level_values:
  assumes "level ws payload num_requests iterations = (evs, Inr (avg_latency, avg_throughput))"
    and "1 \<le> iterations"
  shows "avg_latency = Fin (arithmetic_mean (map (\<lambda>j. arithmetic_mean
             (map (\<lambda>i. took (predict (ws j) payload i)) [0..<nat num_requests])) [0..<nat iterations]))"
    and "avg_throughput = Fin (arithmetic_mean
             (map (\<lambda>j. real_of_int num_requests / wall_clock (ws j)) [0..<nat iterations]))"
    and "0 < num_requests"
proof -
  from assms(1) obtain ls ts where
    t: "trials ws payload num_requests [0..<nat iterations] = (evs, Inr (ls, ts))"
    and avl: "avg_latency = np_mean ls" and avt: "avg_throughput = np_mean (map Fin ts)"
    by (rule level_Inr)
  have ne: "[0..<nat iterations] \<noteq> []" using assms(2) by simp
  note v = trials_Inr_values [OF t]
  have "ls = map Fin (map (\<lambda>j. arithmetic_mean
             (map (\<lambda>i. took (predict (ws j) payload i)) [0..<nat num_requests])) [0..<nat iterations])"
    using v(1) by (simp add: comp_def)
  then show "avg_latency = Fin (arithmetic_mean (map (\<lambda>j. arithmetic_mean
             (map (\<lambda>i. took (predict (ws j) payload i)) [0..<nat num_requests])) [0..<nat iterations]))"
    using avl ne by (simp only: np_mean_Fin) simp
  show "avg_throughput = Fin (arithmetic_mean
             (map (\<lambda>j. real_of_int num_requests / wall_clock (ws j)) [0..<nat iterations]))"
    using avt ne unfolding v(2) by (simp only: np_mean_Fin) simp
  show "0 < num_requests" using v(3) ne by simp
qed

lemma level_no_trials:
  "iterations \<le> 0 \<Longrightarrow> level ws payload num_requests iterations = ([], Inr (NaN, NaN))"
  by (simp add: level_def np_mean_Nil)

lemma level_nonpositive:
  assumes "1 \<le> iterations" and "num_requests \<le> 0"
  shows "level ws payload num_requests iterations = ([Timer_started], Inl ValueError)"
proof -
  from assms(1) obtain n where n: "nat iterations = Suc n"
    by (cases "nat iterations") simp_all
  show ?thesis
    using assms(2) by (simp add: level_def n upt_conv_Cons trial_nonpositive del: upt_Suc)
qed

lemma level_trace:
  "level ws payload num_requests iterations = (evs, Inr r) \<Longrightarrow>
     invocations evs = replicate (nat num_requests * nat iterations) payload"
  using trials_trace [of ws payload num_requests "[0..<nat iterations]" evs]
  by (auto simp: level_def split: prod.splits sum.splits)


lemma stops_at_first_failure_level:
  "stops_at_first_failure (fst (level ws payload num_requests iterations))
     (exception_of (snd (level ws payload num_requests iterations)))"
  using stops_at_first_failure_trials [of ws payload num_requests "[0..<nat iterations]"]
  by (auto simp: level_def exception_of_def split: prod.splits sum.splits)

lemma levels_Inr:
  "levels env payload iterations k steps = (evs, Inr (request_counts, latencies, throughputs)) \<Longrightarrow>
     request_counts = steps
   \<and> length latencies = length steps \<and> length throughputs = length steps
   \<and> (\<forall>n<length steps. snd (level (env (k + n)) payload (steps ! n) iterations)
                           = Inr (latencies ! n, throughputs ! n))"
proof (induction steps arbitrary: k evs request_counts latencies throughputs)
  case Nil
  then show ?case by simp
next
  case (Cons c cs)
  obtain e1 r1 where l: "level (env k) payload c iterations = (e1, r1)"
    by (cases "level (env k) payload c iterations")
  obtain e2 r2 where ls: "levels env payload iterations (Suc k) cs = (e2, r2)"
    by (cases "levels env payload iterations (Suc k) cs")
  from Cons.prems l ls obtain avl avt rc lats ths where
    r1: "r1 = Inr (avl, avt)" and r2: "r2 = Inr (rc, lats, ths)"
    and eq: "request_counts = c # rc" "latencies = avl # lats" "throughputs = avt # ths"
    by (auto split: sum.splits prod.splits)
  note ih = Cons.IH [OF ls [unfolded r2]]
  have "snd (level (env (k + n)) payload ((c # cs) ! n) iterations)
          = Inr (latencies ! n, throughputs ! n)" if "n < length (c # cs)" for n
  proof (cases n)
    case 0
    then show ?thesis using l r1 eq by simp
  next
    case (Suc m)
    then show ?thesis using ih that eq by simp
  qed
  then show ?case using ih eq by simp
qed

lemma levels_trace:
  "levels env payload iterations k steps = (evs, Inr r) \<Longrightarrow>
     invocations evs = concat (map (\<lambda>c. replicate (nat c * nat iterations) payload) steps)"
proof (induction steps arbitrary: k evs r)
  case Nil
  then show ?case by (simp add: invocations_simps)
next
  case (Cons c cs)
  obtain e1 r1 where l: "level (env k) payload c iterations = (e1, r1)"
    by (cases "level (env k) payload c iterations")
  obtain e2 r2 where ls: "levels env payload iterations (Suc k) cs = (e2, r2)"
    by (cases "levels env payload iterations (Suc k) cs")
  from Cons.prems l ls obtain v1 v2 where
    r1: "r1 = Inr v1" and r2: "r2 = Inr v2" and eq: "evs = e1 @ e2"
    by (auto split: sum.splits prod.splits)
  show ?case
    using Cons.IH [OF ls [unfolded r2]] level_trace [OF l [unfolded r1]] eq
    by (simp add: invocations_append)
qed


lemma stops_at_first_failure_levels:
  "stops_at_first_failure (fst (levels env payload iterations k steps))
     (exception_of (snd (levels env payload iterations k steps)))"
proof (induction steps arbitrary: k)
  case Nil
  show ?case
    by (simp add: stops_at_first_failure_def exception_of_def failures_simps reraisings_simps)
next
  case (Cons c cs)
  obtain e1 r1 where l: "level (env k) payload c iterations = (e1, r1)"
    by (cases "level (env k) payload c iterations")
  obtain e2 r2 where ls: "levels env payload iterations (Suc k) cs = (e2, r2)"
    by (cases "levels env payload iterations (Suc k) cs")
  have h1: "stops_at_first_failure e1 (exception_of r1)"
    using stops_at_first_failure_level [of "env k" payload c iterations] l by simp
  have h2: "stops_at_first_failure e2 (exception_of r2)"
    using Cons [of "Suc k"] ls by simp
  show ?case
  proof (cases r1)
    case (Inl err)
    with l h1 show ?thesis by (simp add: exception_of_def)
  next
    case (Inr v)
    then have "stops_at_first_failure e1 None" using h1 by (simp add: exception_of_def)
    from stops_at_first_failure_append [OF this h2]
    show ?thesis using l ls Inr
      by (cases r2) (auto simp: exception_of_def split: prod.splits)
  qed
qed

lemma levels_no_trials:
  "iterations \<le> 0 \<Longrightarrow>
   levels env payload iterations k steps
     = ([], Inr (steps, map (\<lambda>c. NaN) steps, map (\<lambda>c. NaN) steps))"
  by (induction steps arbitrary: k) (simp_all add: level_no_trials)

lemma levels_reach_nonpositive:
  assumes "1 \<le> iterations" and "num_requests \<le> 0"
  shows "levels env payload iterations k before = (evs, Inr r) \<Longrightarrow>
         levels env payload iterations k (before @ num_requests # rest)
           = (evs @ [Timer_started], Inl ValueError)"
proof (induction before arbitrary: k evs r)
  case Nil
  then show ?case using assms by (simp add: level_nonpositive)
next
  case (Cons c cs)
  obtain e1 r1 where l: "level (env k) payload c iterations = (e1, r1)"
    by (cases "level (env k) payload c iterations")
  obtain e2 r2 where ls: "levels env payload iterations (Suc k) cs = (e2, r2)"
    by (cases "levels env payload iterations (Suc k) cs")
  from Cons.prems l ls obtain v1 v2 where
    r1: "r1 = Inr v1" and r2: "r2 = Inr v2" and eq: "evs = e1 @ e2"
    by (auto split: sum.splits prod.splits)
  show ?case
    using Cons.IH [OF ls [unfolded r2]] l r1 eq by (simp split: prod.splits)
qed

subsection \<open>Constant batches, single trials, collected results\<close>




lemma collected_simps:
  "collected [] = []"
  "collected (Timer_started # tr) = collected tr"
  "collected (Timer_stopped # tr) = collected tr"
  "collected (Submitted i # tr) = collected tr"
  "collected (Collected i r # tr) = (i, r) # collected tr"
  "collected (Invoked i p x # tr) = collected tr"
  by (simp_all add: collected_def)

lemma collected_map [simp]:
  "collected (map Submitted js) = []"
  "collected (map (\<lambda>i. Collected i (r i)) js) = map (\<lambda>i. (i, r i)) js"
  "collected (map (\<lambda>i. Invoked i p (x i)) js) = []"
  by (induction js) (simp_all add: collected_simps)


section \<open>Properties\<close>

text \<open>
  C7. With an empty list of concurrency levels the run returns three empty lists and
  calls the endpoint not once: its trace is empty.
\<close>

theorem empty_steps_empty_report:
  "benchmark_predictor env payload [] iterations = ([], Inr ([], [], []))"
  by (simp add: benchmark_predictor_def)



text \<open>
  C2. A run that completes returns three lists with one entry per concurrency level:
  \<open>request_counts\<close> is the list \<open>steps\<close> itself, and the entries at position \<open>n\<close> of
  \<open>latencies\<close> and \<open>throughputs\<close> are the result of the level at position \<open>n\<close> of
  \<open>steps\<close>.
\<close>

theorem report_follows_steps:
  assumes "snd (benchmark_predictor env payload steps iterations)
             = Inr (request_counts, latencies, throughputs)"
  shows "request_counts = steps
       \<and> length latencies = length steps \<and> length throughputs = length steps
       \<and> (\<forall>n<length steps. snd (level (env n) payload (steps ! n) iterations)
                               = Inr (latencies ! n, throughputs ! n))"
proof -
  obtain tr where "levels env payload iterations 0 steps = (tr, Inr (request_counts, latencies, throughputs))"
    using assms by (cases "levels env payload iterations 0 steps") (simp add: benchmark_predictor_def)
  from levels_Inr [OF this] show ?thesis by simp
qed

text \<open>A concrete instance.\<close>

theorem report_follows_steps_witness:
  "snd (benchmark_predictor (stub_endpoint (1/10)) ''what is panda?'' [1, 2, 4] 2)
     = Inr ([1, 2, 4], [Fin (1/10), Fin (1/10), Fin (1/10)], [Fin 10, Fin 20, Fin 40])
 \<and> length [Fin (1/10), Fin (1/10), Fin (1/10)] = length [1::int, 2, 4]
 \<and> length [Fin 10, Fin 20, Fin 40] = length [1::int, 2, 4]
 \<and> snd (level (stub_endpoint (1/10) 2) ''what is panda?'' ([1, 2, 4] ! 2) 2)
          = Inr ([Fin (1/10), Fin (1/10), Fin (1/10)] ! 2, [Fin 10, Fin 20, Fin 40] ! 2)"
proof -
  have n: "(2::nat) < length [1::int, 2, 4]" by simp
  have run: "snd (benchmark_predictor (stub_endpoint (1/10)) ''what is panda?'' [1, 2, 4] 2)
     = Inr ([1, 2, 4], [Fin (1/10), Fin (1/10), Fin (1/10)], [Fin 10, Fin 20, Fin 40])"
    by code_simp
  from report_follows_steps [OF run] run n show ?thesis by blast
qed

text \<open>
  C3. In a run that completes, with a trial count \<open>t \<ge> 0\<close>, the calls of
  \<^verbatim>\<open>predictor.predict\<close> are, level after level in the order of \<open>steps\<close>, exactly
  \<open>c * t\<close> calls for the level of concurrency \<open>c\<close>, every one of them with the payload
  given to \<^verbatim>\<open>benchmark_predictor\<close>.
\<close>

theorem invocations_per_level:
  assumes run: "snd (benchmark_predictor env payload steps iterations) = Inr report"
    and t: "0 \<le> iterations"
  shows "invocations (fst (benchmark_predictor env payload steps iterations))
           = concat (map (\<lambda>c. replicate (nat (c * iterations)) payload) steps)
       \<and> (\<forall>n<length steps.
             invocations (fst (level (env n) payload (steps ! n) iterations))
               = replicate (nat (steps ! n * iterations)) payload
           \<and> 0 \<le> steps ! n * iterations)"
proof -
  obtain rc ls ts where r: "report = (rc, ls, ts)" by (cases report)
  obtain tr where lv: "levels env payload iterations 0 steps = (tr, Inr (rc, ls, ts))"
    using run r by (cases "levels env payload iterations 0 steps") (simp add: benchmark_predictor_def)
  have lev: "snd (level (env n) payload (steps ! n) iterations) = Inr (ls ! n, ts ! n)"
    if "n < length steps" for n
    using levels_Inr [OF lv] that by simp
  have pos: "0 \<le> steps ! n" if nl: "n < length steps" and nz: "iterations \<noteq> 0" for n
  proof -
    obtain evs where "level (env n) payload (steps ! n) iterations = (evs, Inr (ls ! n, ts ! n))"
      using lev [OF nl] by (cases "level (env n) payload (steps ! n) iterations") simp
    from level_values(3) [OF this] t nz show ?thesis by simp
  qed
  have mult: "nat (steps ! n) * nat iterations = nat (steps ! n * iterations) \<and> 0 \<le> steps ! n * iterations"
    if nl: "n < length steps" for n
  proof (cases "iterations = 0")
    case True
    then show ?thesis by simp
  next
    case False
    with pos [OF nl] t show ?thesis by (simp add: nat_mult_distrib)
  qed
  have per_level: "invocations (fst (level (env n) payload (steps ! n) iterations))
               = replicate (nat (steps ! n * iterations)) payload \<and> 0 \<le> steps ! n * iterations"
    if nl: "n < length steps" for n
  proof -
    obtain evs where l: "level (env n) payload (steps ! n) iterations = (evs, Inr (ls ! n, ts ! n))"
      using lev [OF nl] by (cases "level (env n) payload (steps ! n) iterations") simp
    from level_trace [OF l] l mult [OF nl] show ?thesis by simp
  qed
  have "map (\<lambda>c. replicate (nat c * nat iterations) payload) steps
          = map (\<lambda>c. replicate (nat (c * iterations)) payload) steps"
    using mult by (auto simp: in_set_conv_nth)
  with levels_trace [OF lv] lv
  have "invocations (fst (benchmark_predictor env payload steps iterations))
           = concat (map (\<lambda>c. replicate (nat (c * iterations)) payload) steps)"
    by (simp add: benchmark_predictor_def)
  with per_level show ?thesis by blast
qed

text \<open>A concrete instance.\<close>

theorem invocations_per_level_witness:
  "snd (benchmark_predictor (stub_endpoint (1/10)) ''what is panda?'' [1, 2, 4] 2)
     = Inr ([1, 2, 4], [Fin (1/10), Fin (1/10), Fin (1/10)], [Fin 10, Fin 20, Fin 40])
 \<and> (0::int) \<le> 2
 \<and> invocations (fst (benchmark_predictor (stub_endpoint (1/10)) ''what is panda?'' [1, 2, 4] 2))
       = replicate 2 ''what is panda?'' @ replicate 4 ''what is panda?''
           @ replicate 8 ''what is panda?''
 \<and> invocations (fst (level (stub_endpoint (1/10) 2) ''what is panda?'' ([1, 2, 4] ! 2) 2))
          = replicate (nat ([1, 2, 4] ! 2 * 2)) ''what is panda?''
 \<and> 0 \<le> [1::int, 2, 4] ! 2 * 2"
proof -
  have n: "(2::nat) < length [1::int, 2, 4]" by simp
  have run: "snd (benchmark_predictor (stub_endpoint (1/10)) ''what is panda?'' [1, 2, 4] 2)
     = Inr ([1, 2, 4], [Fin (1/10), Fin (1/10), Fin (1/10)], [Fin 10, Fin 20, Fin 40])"
    by code_simp
  have t: "(0::int) \<le> 2" by simp
  have "concat (map (\<lambda>c. replicate (nat (c * 2)) ''what is panda?'') [1, 2, 4])
      = replicate 2 ''what is panda?'' @ replicate 4 ''what is panda?''
           @ replicate 8 ''what is panda?''"
    by simp
  with invocations_per_level [OF run t] run t n show ?thesis by (simp only:)
qed

text \<open>
  C4. If some call of \<^verbatim>\<open>predictor.predict\<close> made during a run raises, the run does not
  return a report: an exception leaves \<^verbatim>\<open>benchmark_predictor\<close>, and it is one of the
  exceptions that the calls of this run raised. No failed call ends up as a latency of a
  returned report.
\<close>

theorem failed_invocation_fails_run:
  assumes "failures (fst (benchmark_predictor env payload steps iterations)) \<noteq> []"
  shows "\<exists>e. e \<in> set (failures (fst (benchmark_predictor env payload steps iterations)))
            \<and> snd (benchmark_predictor env payload steps iterations) = Inl (PredictError e)"
proof -
  let ?run = "benchmark_predictor env payload steps iterations"
  have s: "stops_at_first_failure (fst ?run) (exception_of (snd ?run))"
    unfolding benchmark_predictor_def by (rule stops_at_first_failure_levels)
  show ?thesis
  proof (cases "snd ?run")
    case (Inr v)
    with s assms show ?thesis by (simp add: stops_at_first_failure_def exception_of_def)
  next
    case (Inl err)
    with s assms show ?thesis
      by (cases err) (auto simp: stops_at_first_failure_def exception_of_def)
  qed
qed

text \<open>A concrete instance.\<close>

theorem failed_invocation_fails_run_witness:
  "failures (fst (benchmark_predictor failing_endpoint ''what is panda?'' [1, 4] 1)) \<noteq> []
 \<and> ''throttled'' \<in> set (failures (fst (benchmark_predictor failing_endpoint ''what is panda?'' [1, 4] 1)))
 \<and> snd (benchmark_predictor failing_endpoint ''what is panda?'' [1, 4] 1)
       = Inl (PredictError ''throttled'')"
proof -
  have f: "failures (fst (benchmark_predictor failing_endpoint ''what is panda?'' [1, 4] 1))
             = [''timed out'', ''throttled'']"
    by code_simp
  then have ne: "failures (fst (benchmark_predictor failing_endpoint ''what is panda?'' [1, 4] 1)) \<noteq> []"
    by simp
  have r: "snd (benchmark_predictor failing_endpoint ''what is panda?'' [1, 4] 1)
       = Inl (PredictError ''throttled'')"
    by code_simp
  from failed_invocation_fails_run [OF ne] obtain e where
    "e \<in> set (failures (fst (benchmark_predictor failing_endpoint ''what is panda?'' [1, 4] 1)))"
    "snd (benchmark_predictor failing_endpoint ''what is panda?'' [1, 4] 1) = Inl (PredictError e)"
    by blast
  with r ne show ?thesis by simp
qed

text \<open>
  C5, as the code has it. \<^verbatim>\<open>benchmark_predictor\<close> does not check its configuration.
  With \<open>iterations \<le> 0\<close> no trial runs and no exception is raised: the run calls the
  endpoint not once and returns \<open>steps\<close> together with \<^verbatim>\<open>nan\<close> for every latency and every
  throughput. A concurrency level \<open>\<le> 0\<close> raises \<^verbatim>\<open>ValueError\<close> only when its first trial
  builds the thread pool (\<open>iterations \<ge> 1\<close>): after everything the levels before it have
  done, and before any request of its own.
\<close>

theorem no_check_of_the_configuration:
  "(iterations \<le> 0 \<longrightarrow>
      benchmark_predictor env payload steps iterations
        = ([], Inr (steps, map (\<lambda>c. NaN) steps, map (\<lambda>c. NaN) steps)))
 \<and> (1 \<le> iterations \<and> num_requests \<le> 0
      \<and> snd (benchmark_predictor env payload before iterations) = Inr report \<longrightarrow>
      benchmark_predictor env payload (before @ num_requests # rest) iterations
        = (fst (benchmark_predictor env payload before iterations) @ [Timer_started],
           Inl ValueError))"
proof (intro conjI impI)
  assume "iterations \<le> 0"
  then show "benchmark_predictor env payload steps iterations
        = ([], Inr (steps, map (\<lambda>c. NaN) steps, map (\<lambda>c. NaN) steps))"
    by (simp add: benchmark_predictor_def levels_no_trials)
next
  assume a: "1 \<le> iterations \<and> num_requests \<le> 0
      \<and> snd (benchmark_predictor env payload before iterations) = Inr report"
  then obtain tr where "levels env payload iterations 0 before = (tr, Inr report)"
    by (cases "levels env payload iterations 0 before") (simp add: benchmark_predictor_def)
  from levels_reach_nonpositive [OF _ _ this, of num_requests rest] a this
  show "benchmark_predictor env payload (before @ num_requests # rest) iterations
        = (fst (benchmark_predictor env payload before iterations) @ [Timer_started],
           Inl ValueError)"
    by (simp add: benchmark_predictor_def)
qed

text \<open>A concrete instance.\<close>

theorem no_check_of_the_configuration_witness:
  "(0::int) \<le> 0
 \<and> benchmark_predictor (stub_endpoint 1) ''what is panda?'' [1, 2, 4] 0
      = ([], Inr ([1, 2, 4], [NaN, NaN, NaN], [NaN, NaN, NaN]))
 \<and> (1::int) \<le> 1
 \<and> snd (benchmark_predictor (stub_endpoint 1) ''what is panda?'' [1] 1) = Inr ([1], [Fin 1], [Fin 1])
 \<and> benchmark_predictor (stub_endpoint 1) ''what is panda?'' ([1] @ 0 # [2]) 1
      = (fst (benchmark_predictor (stub_endpoint 1) ''what is panda?'' [1] 1) @ [Timer_started],
         Inl ValueError)"
proof -
  have z: "(0::int) \<le> 0" and o: "(1::int) \<le> 1" by simp_all
  have run: "snd (benchmark_predictor (stub_endpoint 1) ''what is panda?'' [1] 1)
               = Inr ([1], [Fin 1], [Fin 1])"
    by code_simp
  from no_check_of_the_configuration
         [of 0 "stub_endpoint 1" "''what is panda?''" "[1, 2, 4]" 0 "[]" "([], [], [])" "[]"] z
  have a: "benchmark_predictor (stub_endpoint 1) ''what is panda?'' [1, 2, 4] 0
      = ([], Inr ([1, 2, 4], [NaN, NaN, NaN], [NaN, NaN, NaN]))"
    by simp
  from no_check_of_the_configuration
         [of 1 "stub_endpoint 1" "''what is panda?''" "[]" 0 "[1]" "([1], [Fin 1], [Fin 1])" "[2]"] z o run
  have b: "benchmark_predictor (stub_endpoint 1) ''what is panda?'' ([1] @ 0 # [2]) 1
      = (fst (benchmark_predictor (stub_endpoint 1) ''what is panda?'' [1] 1) @ [Timer_started],
         Inl ValueError)"
    by blast
  from a b z o run show ?thesis by blast
qed

text \<open>
  Zero trials on the stub endpoint: the run returns a report of \<^verbatim>\<open>nan\<close> and raises
  nothing.
\<close>

theorem zero_trials_counterexample:
  "benchmark_predictor (stub_endpoint 1) ''what is panda?'' [1] 0 = ([], Inr ([1], [NaN], [NaN]))"
  by code_simp






text \<open>
  C10. If some call of \<^verbatim>\<open>predictor.predict\<close> raises during a run, the run ends with
  the first future whose result re-raises: that re-raising is the last event of the run,
  no future has re-raised before it, its exception is the one that leaves
  \<^verbatim>\<open>benchmark_predictor\<close>, and no report is returned, whatever the levels and trials
  before had produced.
\<close>

theorem run_aborts_at_first_failed_future:
  assumes "failures (fst (benchmark_predictor env payload steps iterations)) \<noteq> []"
  shows "\<exists>e pre i.
           snd (benchmark_predictor env payload steps iterations) = Inl (PredictError e)
         \<and> fst (benchmark_predictor env payload steps iterations) = pre @ [Collected i (Inl e)]
         \<and> reraisings pre = []"
proof -
  let ?run = "benchmark_predictor env payload steps iterations"
  have s: "stops_at_first_failure (fst ?run) (exception_of (snd ?run))"
    unfolding benchmark_predictor_def by (rule stops_at_first_failure_levels)
  show ?thesis
  proof (cases "snd ?run")
    case (Inr v)
    with s assms show ?thesis by (simp add: stops_at_first_failure_def exception_of_def)
  next
    case (Inl err)
    with s assms show ?thesis
      by (cases err) (auto simp: stops_at_first_failure_def exception_of_def)
  qed
qed

text \<open>A concrete instance.\<close>

theorem run_aborts_at_first_failed_future_witness:
  "failures (fst (benchmark_predictor failing_endpoint ''what is panda?'' [1, 4] 1)) \<noteq> []
 \<and> (\<exists>pre. snd (benchmark_predictor failing_endpoint ''what is panda?'' [1, 4] 1)
              = Inl (PredictError ''throttled'')
          \<and> fst (benchmark_predictor failing_endpoint ''what is panda?'' [1, 4] 1)
              = pre @ [Collected 2 (Inl ''throttled'')]
          \<and> reraisings pre = [])"
proof -
  have f: "failures (fst (benchmark_predictor failing_endpoint ''what is panda?'' [1, 4] 1))
             = [''timed out'', ''throttled'']"
    by code_simp
  then have ne: "failures (fst (benchmark_predictor failing_endpoint ''what is panda?'' [1, 4] 1)) \<noteq> []"
    by simp
  have l: "last (fst (benchmark_predictor failing_endpoint ''what is panda?'' [1, 4] 1))
             = Collected 2 (Inl ''throttled'')"
    by code_simp
  from run_aborts_at_first_failed_future [OF ne] obtain e pre i where
    *: "snd (benchmark_predictor failing_endpoint ''what is panda?'' [1, 4] 1) = Inl (PredictError e)"
    "fst (benchmark_predictor failing_endpoint ''what is panda?'' [1, 4] 1) = pre @ [Collected i (Inl e)]"
    "reraisings pre = []"
    by blast
  from *(2) l have "i = 2" "e = ''throttled''" by simp_all
  with * ne show ?thesis by blast
qed

end
